theory Spec2Isabelle
  imports Main "HOL-Library.Sublist" "HOL-Library.AList" "HOL-Library.Word"
begin

section \<open>JavaScript values and strings\<close>

text \<open>
  The SDK is TypeScript. The few pieces of the JavaScript runtime the modelled functions
  rely on are written out here: the \<open>typeof\<close> operator, property reads on an object
  (an absent property reads as \<open>undefined\<close>), truthiness of a number, and
  \<open>String.prototype.slice\<close> with one argument. Numbers are modelled as \<open>int\<close>:
  \<open>NaN\<close>, infinities and fractions are outside the model.
\<close>

datatype jsval =
    JUndefined
  | JNull
  | JBoolean bool
  | JNumber int
  | JString string
  | JObject
  | JFunction

fun typeof :: "jsval \<Rightarrow> string" where
  "typeof JUndefined = ''undefined''"
| "typeof JNull = ''object''"
| "typeof (JBoolean b) = ''boolean''"
| "typeof (JNumber n) = ''number''"
| "typeof (JString s) = ''string''"
| "typeof JObject = ''object''"
| "typeof JFunction = ''function''"

type_synonym jsobject = "string \<Rightarrow> jsval option"

definition get_prop :: "jsobject \<Rightarrow> string \<Rightarrow> jsval" where
  "get_prop obj k = (case obj k of None \<Rightarrow> JUndefined | Some v \<Rightarrow> v)"

definition truthy_number :: "int \<Rightarrow> bool" where
  "truthy_number n = (n \<noteq> 0)"

text \<open>\<open>s.slice(start)\<close>: a negative start counts from the end, and both ends are clamped.\<close>

definition js_slice :: "string \<Rightarrow> int \<Rightarrow> string" where
  "js_slice s start =
     (let len = int (length s);
          k = (if start < 0 then max (len + start) 0 else min start len)
      in drop (nat k) s)"

fun starts_with :: "string \<Rightarrow> string \<Rightarrow> bool" where
  "starts_with [] ys = True"
| "starts_with (x # xs) [] = False"
| "starts_with (x # xs) (y # ys) = (x = y \<and> starts_with xs ys)"

text \<open>\<open>str_includes needle hay\<close> is \<open>hay.includes(needle)\<close>.\<close>

fun str_includes :: "string \<Rightarrow> string \<Rightarrow> bool" where
  "str_includes needle [] = (needle = [])"
| "str_includes needle (h # hs) = (starts_with needle (h # hs) \<or> str_includes needle hs)"

fun decimal :: "nat \<Rightarrow> string" where
  "decimal n =
     (if n < 10 then [''0123456789'' ! n]
      else decimal (n div 10) @ [''0123456789'' ! (n mod 10)])"

definition decimal_int :: "int \<Rightarrow> string" where
  "decimal_int i = (if i < 0 then CHR ''-'' # decimal (nat (- i)) else decimal (nat i))"

text \<open>A message names a number when the number's decimal rendering occurs in it.\<close>

definition names_number :: "string \<Rightarrow> int \<Rightarrow> bool" where
  "names_number msg n = str_includes (decimal_int n) msg"

text \<open>
  What a construction call can throw: an \<open>Error\<close> with the message the sources give
  it, and the structural errors of the construct tree under the names the spec gives them.
  \<open>NoSuchNode\<close> answers a path that names no node of the tree; the program passes
  object references and cannot ask that.
\<close>

datatype js_error =
    Error string
  | DuplicateChildId string
  | LockedTreeMutation
  | NoSuchNode


section \<open>target-tf-gcp/function.ts: the limits checked by the Function constructor\<close>

text \<open>
  \<open>cloud.FunctionProps\<close> as the constructor reads it: \<open>memory\<close> (a number of MB),
  \<open>timeout\<close> (a duration, read through \<open>seconds\<close>) and \<open>env\<close>, each optional.
\<close>

record Duration =
  seconds :: int

record FunctionProps =
  memory :: "int option"
  timeout :: "Duration option"
  env :: "(string \<times> string) list option"

text \<open>
  The arguments handed to \<open>CloudfunctionsFunction\<close> that the constructor computes from
  its props or fixes as literals. The name, project, region and source archive come from the
  application and the bucket, which take no part in the checks.
\<close>

record CloudfunctionsFunctionConfig =
  description :: string
  runtime :: string
  availableMemoryMb :: int
  entryPoint :: string
  triggerHttp :: bool
  timeoutSeconds :: int
  environmentVariables :: "(string \<times> string) list"

definition MEMORY_MESSAGE :: string where
  "MEMORY_MESSAGE = ''Memory must be between 128 and 8192 MB for GCP Cloud Functions''"

definition TIMEOUT_MESSAGE :: string where
  "TIMEOUT_MESSAGE = ''Timeout must be between 1 and 540 seconds for GCP Cloud Functions''"

text \<open>
  Lines 91 to 122 of the constructor. \<open>props?.memory && (...)\<close> holds for a memory that
  is present, truthy and out of range; \<open>props?.timeout && (...)\<close> for a duration that is
  present (an object is always truthy) and out of range. \<open>??\<close> replaces only an absent
  value.
\<close>

definition Function_constructor :: "FunctionProps \<Rightarrow> js_error + CloudfunctionsFunctionConfig" where
  "Function_constructor props =
     (if (case memory props of
            None \<Rightarrow> False
          | Some m \<Rightarrow> truthy_number m \<and> (m < 128 \<or> m > 8192))
      then Inl (Error MEMORY_MESSAGE)
      else if (case timeout props of
                 None \<Rightarrow> False
               | Some d \<Rightarrow> seconds d < 1 \<or> seconds d > 540)
      then Inl (Error TIMEOUT_MESSAGE)
      else Inr \<lparr> description = ''This function was created by Wing'',
                 runtime = ''nodejs16'',
                 availableMemoryMb = (case memory props of None \<Rightarrow> 128 | Some m \<Rightarrow> m),
                 entryPoint = ''handler'',
                 triggerHttp = True,
                 timeoutSeconds = (case timeout props of None \<Rightarrow> 60 | Some d \<Rightarrow> seconds d),
                 environmentVariables = (case env props of None \<Rightarrow> [] | Some e \<Rightarrow> e) \<rparr>)"


section \<open>shared-aws/api.ts: the narrowing accessor\<close>

text \<open>
  \<open>Api.from\<close> receives a \<open>cloud.Api\<close>, an object; its properties are read by name.
\<close>

definition isAwsApi :: "jsobject \<Rightarrow> bool" where
  "isAwsApi obj =
     (typeof (get_prop obj ''restApiArn'') = ''string'' \<and>
      typeof (get_prop obj ''restApiId'') = ''string'' \<and>
      typeof (get_prop obj ''restApiName'') = ''string'' \<and>
      typeof (get_prop obj ''stageName'') = ''string'' \<and>
      typeof (get_prop obj ''invokeUrl'') = ''string'' \<and>
      typeof (get_prop obj ''deploymentId'') = ''string'')"

definition Api_from :: "jsobject \<Rightarrow> jsobject option" where
  "Api_from api = (if isAwsApi api then Some api else None)"

text \<open>The six fields of the interface \<open>IAwsApi\<close>.\<close>

definition IAwsApi_fields :: "string list" where
  "IAwsApi_fields =
     [''restApiArn'', ''restApiId'', ''restApiName'', ''stageName'', ''invokeUrl'', ''deploymentId'']"

definition is_string :: "jsval \<Rightarrow> bool" where
  "is_string v = (case v of JString s \<Rightarrow> True | _ \<Rightarrow> False)"


section \<open>target-tf-gcp/schedule.ts: the environment variable of a schedule\<close>

text \<open>\<open>envName\<close> reads only the address of the schedule's node.\<close>

definition envName :: "string \<Rightarrow> string" where
  "envName node_addr = ''SCHEDULER_JOB_'' @ js_slice node_addr (- 8)"


section \<open>std/node.ts: the construct tree behind Node\<close>

text \<open>
  Modelled from the spec: the construct tree. From \<open>scope\<close> on, every member of
  \<open>Node\<close> hands its call to the node of the constructs library
  (\<open>this._constructsNode\<close>), which is not among the sources. The tree is therefore
  written from the spec's data model and from the documentation the members carry in
  \<open>node.ts\<close>. A node is identified by its path, the ids from the root down to it (the
  root is \<open>[]\<close>, and the scope of a node is its path without the last id); the tree
  lists its nodes in the order of their creation. A node keeps the ids of its children in
  the order of insertion, its own lock mark and its validations.
\<close>

type_synonym path = "string list"

record cnode =
  child_ids :: "string list"
  is_locked :: bool
  validations :: "string list list"

type_synonym construct_tree = "(path \<times> cnode) list"

definition new_cnode :: cnode where
  "new_cnode = \<lparr>child_ids = [], is_locked = False, validations = []\<rparr>"

definition own_lock :: "construct_tree \<Rightarrow> path \<Rightarrow> bool" where
  "own_lock t p = (case map_of t p of None \<Rightarrow> False | Some n \<Rightarrow> is_locked n)"

text \<open>
  Modelled from the spec: the accessor \<open>locked\<close> of the constructs node. Documented as
  true if this construct or the scopes in which it is defined are locked: the node's own
  mark, or else the answer of its scope.
\<close>

function locked :: "construct_tree \<Rightarrow> path \<Rightarrow> bool" where
  "locked t p =
     (if own_lock t p then True
      else if p = [] then False
      else locked t (butlast p))"
  by pat_completeness auto
termination
  by (relation "measure (\<lambda>(t, p). length p)") auto

text \<open>Modelled from the spec: \<open>lock()\<close> of the constructs node marks this node.\<close>

definition lock :: "construct_tree \<Rightarrow> path \<Rightarrow> js_error + construct_tree" where
  "lock t p =
     (case map_of t p of
        None \<Rightarrow> Inl NoSuchNode
      | Some n \<Rightarrow> Inr (AList.update p (n\<lparr>is_locked := True\<rparr>) t))"

text \<open>
  Modelled from the spec: adding a child to a scope, which every constructor of a
  construct does. It fails with \<open>LockedTreeMutation\<close> if the scope or one of its
  ancestors is locked and with \<open>DuplicateChildId\<close> if the id is taken by a sibling;
  otherwise the child is appended to the scope's children and starts without children,
  lock or validations.
\<close>

definition addChild :: "construct_tree \<Rightarrow> path \<Rightarrow> string \<Rightarrow> js_error + construct_tree" where
  "addChild t p i =
     (case map_of t p of
        None \<Rightarrow> Inl NoSuchNode
      | Some n \<Rightarrow>
          if locked t p then Inl LockedTreeMutation
          else if i \<in> set (child_ids n) then Inl (DuplicateChildId i)
          else Inr (AList.update (p @ [i]) new_cnode
                      (AList.update p (n\<lparr>child_ids := child_ids n @ [i]\<rparr>) t)))"

text \<open>
  Modelled from the spec: \<open>addValidation\<close> of the constructs node. A validation is a
  function of no argument that returns error messages; it is kept as the messages it
  returns.
\<close>

definition addValidation ::
    "construct_tree \<Rightarrow> path \<Rightarrow> string list \<Rightarrow> js_error + construct_tree" where
  "addValidation t p v =
     (case map_of t p of
        None \<Rightarrow> Inl NoSuchNode
      | Some n \<Rightarrow> Inr (AList.update p (n\<lparr>validations := validations n @ [v]\<rparr>) t))"

text \<open>
  The calls that build a tree and can follow a \<open>lock()\<close>. \<open>tryRemoveChild\<close>, marked
  experimental in \<open>node.ts\<close> and absent from the spec, is left out: a path names one node
  for good.
\<close>

datatype tree_call =
    AddChild path string
  | Lock path
  | AddValidation path "string list"

fun tree_step :: "tree_call \<Rightarrow> construct_tree \<Rightarrow> js_error + construct_tree" where
  "tree_step (AddChild p i) t = addChild t p i"
| "tree_step (Lock p) t = lock t p"
| "tree_step (AddValidation p v) t = addValidation t p v"

text \<open>A call that throws changes nothing, and the calls after it still run.\<close>

fun tree_run :: "tree_call list \<Rightarrow> construct_tree \<Rightarrow> construct_tree" where
  "tree_run [] t = t"
| "tree_run (x # xs) t =
     tree_run xs (case tree_step x t of Inl e \<Rightarrow> t | Inr t' \<Rightarrow> t')"


text \<open>The tree built by a sequence of calls, starting from a lone root.\<close>

definition tree_of :: "tree_call list \<Rightarrow> construct_tree" where
  "tree_of calls = tree_run calls [([], new_cnode)]"

text \<open>
  In a tree built this way every node but the root is listed among the children of its
  scope.
\<close>

definition well_formed :: "construct_tree \<Rightarrow> bool" where
  "well_formed t =
     (\<forall>p i. map_of t (p @ [i]) \<noteq> None \<longrightarrow>
        (\<exists>n. map_of t p = Some n \<and> i \<in> set (child_ids n)))"


text \<open>A node has a child of a given id; and one tree grows into another by adding children.\<close>

definition has_child :: "construct_tree \<Rightarrow> path \<Rightarrow> string \<Rightarrow> bool" where
  "has_child t p i = (case map_of t p of None \<Rightarrow> False | Some n \<Rightarrow> i \<in> set (child_ids n))"

inductive grown :: "construct_tree \<Rightarrow> construct_tree \<Rightarrow> bool" where
  grown_same: "grown t t"
| grown_child: "grown t t1 \<Longrightarrow> addChild t1 p i = Inr t2 \<Longrightarrow> grown t t2"


section \<open>std/node.ts: the address of a node\<close>

text \<open>
  A digest of 160 bits in hexadecimal: forty digits, the most significant first, each
  rendering four bits.
\<close>

definition hex_digit :: "nat \<Rightarrow> char" where
  "hex_digit n = ''0123456789abcdef'' ! (n mod 16)"

definition hex_of_digest :: "160 word \<Rightarrow> string" where
  "hex_of_digest w = map (\<lambda>i. hex_digit (unat (drop_bit (4 * (39 - i)) w))) [0..<40]"

text \<open>
  Modelled from the spec: the address function. \<open>addr\<close> hands its call to the
  constructs library, which is not among the sources. The address is the tag \<open>c8\<close>
  followed by the digest, in lowercase hexadecimal, of the ids from the root to the node
  without those equal to \<open>Default\<close>. The digest function (SHA-1, which yields 160 bits)
  is a parameter.
\<close>

definition addr :: "(string list \<Rightarrow> 160 word) \<Rightarrow> path \<Rightarrow> string" where
  "addr digest segments =
     ''c8'' @ hex_of_digest (digest (filter (\<lambda>seg. seg \<noteq> ''Default'') segments))"

text \<open>
  Two id sequences differ only by segments equal to \<open>Default\<close> when one becomes the
  other by inserting and removing such segments.
\<close>

inductive differ_by_default :: "path \<Rightarrow> path \<Rightarrow> bool" where
  both_empty: "differ_by_default [] []"
| same_segment: "differ_by_default p q \<Longrightarrow> differ_by_default (x # p) (x # q)"
| wrapper_left: "differ_by_default p q \<Longrightarrow> differ_by_default (''Default'' # p) q"
| wrapper_right: "differ_by_default p q \<Longrightarrow> differ_by_default p (''Default'' # q)"


section \<open>std/node.ts and the Display class: lazy attachment\<close>

text \<open>
  \<open>Node.of\<close> and \<open>Display.of\<close> keep the companion object in a property of the
  construct, under a symbol of their own. The store below holds, for every construct, the
  reference kept under \<open>NODE_SYMBOL\<close> and under \<open>DISPLAY_SYMBOL\<close>; objects are
  identified by the order of their creation, so \<open>allocated\<close> is both the number of
  objects created so far and the reference the next \<open>new\<close> returns. A \<open>Node\<close> object
  holds the construct it belongs to and the connections registry it was given.
\<close>

record 'c attachments =
  node_symbol :: "'c \<Rightarrow> nat option"
  display_symbol :: "'c \<Rightarrow> nat option"
  connections_symbol :: "'c \<Rightarrow> nat option"
  node_fields :: "nat \<Rightarrow> ('c \<times> nat) option"
  allocated :: nat

text \<open>
  Modelled from the spec: \<open>Connections.of\<close> (module \<open>core\<close>) is not among the sources.
  The spec has one registry per tree, created and cached for the whole tree on first
  access; it is kept here under the root of the construct's tree, \<open>root c\<close>.
\<close>

definition Connections_of ::
    "('c \<Rightarrow> 'c) \<Rightarrow> 'c \<Rightarrow> 'c attachments \<Rightarrow> nat \<times> 'c attachments" where
  "Connections_of root c s =
     (case connections_symbol s (root c) of
        Some r \<Rightarrow> (r, s)
      | None \<Rightarrow>
          (allocated s,
           s\<lparr>connections_symbol := (connections_symbol s)(root c \<mapsto> allocated s),
             allocated := Suc (allocated s)\<rparr>))"

text \<open>The private constructor of \<open>Node\<close>: it asks for the registry, then the object exists.\<close>

definition new_Node ::
    "('c \<Rightarrow> 'c) \<Rightarrow> 'c \<Rightarrow> 'c attachments \<Rightarrow> nat \<times> 'c attachments" where
  "new_Node root c s =
     (let (conn, s1) = Connections_of root c s
      in (allocated s1,
          s1\<lparr>node_fields := (node_fields s1)(allocated s1 \<mapsto> (c, conn)),
             allocated := Suc (allocated s1)\<rparr>))"

text \<open>
  \<open>Node.of\<close>. The property holds an object or nothing, so \<open>!node\<close> is true exactly when
  nothing is stored.
\<close>

definition Node_of ::
    "('c \<Rightarrow> 'c) \<Rightarrow> 'c \<Rightarrow> 'c attachments \<Rightarrow> nat \<times> 'c attachments" where
  "Node_of root c s =
     (case node_symbol s c of
        Some n \<Rightarrow> (n, s)
      | None \<Rightarrow>
          (let (n, s1) = new_Node root c s
           in (n, s1\<lparr>node_symbol := (node_symbol s1)(c \<mapsto> n)\<rparr>)))"

text \<open>\<open>Display.of\<close>; the constructor of \<open>Display\<close> is empty.\<close>

definition Display_of :: "'c \<Rightarrow> 'c attachments \<Rightarrow> nat \<times> 'c attachments" where
  "Display_of c s =
     (case display_symbol s c of
        Some d \<Rightarrow> (d, s)
      | None \<Rightarrow>
          (allocated s,
           s\<lparr>display_symbol := (display_symbol s)(c \<mapsto> allocated s),
             allocated := Suc (allocated s)\<rparr>))"

text \<open>Any later use of the two accessors, on any constructs, in any order.\<close>

datatype 'c attach_call = NodeOf 'c | DisplayOf 'c

fun attach_step :: "('c \<Rightarrow> 'c) \<Rightarrow> 'c attach_call \<Rightarrow> 'c attachments \<Rightarrow> 'c attachments" where
  "attach_step root (NodeOf c) s = snd (Node_of root c s)"
| "attach_step root (DisplayOf c) s = snd (Display_of c s)"

fun attach_run :: "('c \<Rightarrow> 'c) \<Rightarrow> 'c attach_call list \<Rightarrow> 'c attachments \<Rightarrow> 'c attachments" where
  "attach_run root [] s = s"
| "attach_run root (x # xs) s = attach_run root xs (attach_step root x s)"


text \<open>
  The store before any accessor has been called, and what every store reached from it
  satisfies: a reference kept on a construct names an object that exists, and no two
  constructs keep the same reference under the same symbol.
\<close>

definition empty_attachments :: "'c attachments" where
  "empty_attachments =
     \<lparr>node_symbol = Map.empty, display_symbol = Map.empty, connections_symbol = Map.empty,
      node_fields = Map.empty, allocated = 0\<rparr>"

definition consistent :: "'c attachments \<Rightarrow> bool" where
  "consistent s =
     ((\<forall>c n. node_symbol s c = Some n \<longrightarrow>
         n < allocated s \<and> (\<forall>c'. node_symbol s c' = Some n \<longrightarrow> c' = c))
      \<and> (\<forall>c d. display_symbol s c = Some d \<longrightarrow>
         d < allocated s \<and> (\<forall>c'. display_symbol s c' = Some d \<longrightarrow> c' = c)))"


section \<open>target-tf-gcp/schedule.ts: onTick\<close>

text \<open>
  The constructor of the GCP \<open>Function\<close> as \<open>onTick\<close> sees it: the construct is added
  to its scope (the base class does that with the scope and id it is given), four
  provider resources are created beneath it, the limits are checked, and the cloud
  function itself is created last. Each \<open>new R(this, id, ...)\<close> of an opaque provider
  resource adds a child of that id.
\<close>

definition new_Function ::
    "construct_tree \<Rightarrow> path \<Rightarrow> string \<Rightarrow> FunctionProps \<Rightarrow> js_error + construct_tree" where
  "new_Function t scope fid props =
     (case addChild t scope fid of Inl e \<Rightarrow> Inl e | Inr t1 \<Rightarrow>
      case addChild t1 (scope @ [fid]) ''Asset'' of Inl e \<Rightarrow> Inl e | Inr t2 \<Rightarrow>
      case addChild t2 (scope @ [fid]) ''Id'' of Inl e \<Rightarrow> Inl e | Inr t3 \<Rightarrow>
      case addChild t3 (scope @ [fid]) ''Function_Bucket'' of Inl e \<Rightarrow> Inl e | Inr t4 \<Rightarrow>
      case addChild t4 (scope @ [fid]) ''Function_Object_Bucket'' of Inl e \<Rightarrow> Inl e | Inr t5 \<Rightarrow>
      case Function_constructor props of Inl e \<Rightarrow> Inl e | Inr cfg \<Rightarrow>
      addChild t5 (scope @ [fid]) ''Default_Function'')"

text \<open>
  One \<open>Schedule\<close> in its tree: the tree, the schedule's own node, its private table
  \<open>handlers\<close> from the \<open>_id\<close> of a handler to the \<open>Function\<close> created for it (a
  construct, named by its path), the number of ids \<open>App.makeId\<close> has handed out for this
  scope and prefix, and the connections recorded by \<open>addConnection\<close>.
\<close>

record schedule =
  nodes :: construct_tree
  self :: path
  handlers :: "(string \<times> path) list"
  made_ids :: nat
  connections :: "(path \<times> path \<times> string) list"

text \<open>
  \<open>onTick\<close>, statement by statement. \<open>App.makeId\<close> is not among the sources and is the
  parameter \<open>makeId\<close>, from the number of earlier requests to the id. A throw ends the
  synthesis run, so the result of a call that throws is the error alone.
  \<open>convertBetweenHandlers\<close> builds a handler and touches neither the tree nor the table;
  \<open>addPermissionToInvoke\<close> works on the new function, not on the schedule;
  \<open>Function.from\<close> is given the function just built and yields it, so the scheduler job
  is created.
\<close>

definition onTick ::
    "(nat \<Rightarrow> string) \<Rightarrow> schedule \<Rightarrow> string \<Rightarrow> FunctionProps \<Rightarrow> js_error + (path \<times> schedule)" where
  "onTick makeId s inflight_id props =
     (case addChild (nodes s) (self s) ''CloudSchedulerAPI'' of Inl e \<Rightarrow> Inl e | Inr t1 \<Rightarrow>
      case map_of (handlers s) inflight_id of
        Some cronFunction \<Rightarrow> Inr (cronFunction, s\<lparr>nodes := t1\<rparr>)
      | None \<Rightarrow>
          let fid = makeId (made_ids s); cronFunction = self s @ [fid] in
          case new_Function t1 (self s) fid props of Inl e \<Rightarrow> Inl e | Inr t2 \<Rightarrow>
          case addChild t2 (self s) ''SchedulerServiceAccount'' of Inl e \<Rightarrow> Inl e | Inr t3 \<Rightarrow>
          case addChild t3 (self s) ''Scheduler'' of Inl e \<Rightarrow> Inl e | Inr t4 \<Rightarrow>
          Inr (cronFunction,
               s\<lparr>nodes := t4,
                 handlers := AList.update inflight_id cronFunction (handlers s),
                 made_ids := Suc (made_ids s),
                 connections := connections s @ [(self s, cronFunction, ''onTick()'')]\<rparr>))"


text \<open>
  A schedule that has just been constructed under the root, and ids of the form
  \<open>OnTick0\<close>, \<open>OnTick1\<close>, ... for \<open>makeId\<close>.
\<close>

definition OnTick_id :: "nat \<Rightarrow> string" where
  "OnTick_id k = ''OnTick'' @ decimal k"

definition fresh_schedule :: schedule where
  "fresh_schedule =
     \<lparr>nodes = tree_of [AddChild [] ''Schedule''], self = [''Schedule''], handlers = [],
      made_ids = 0, connections = []\<rparr>"


section \<open>Properties of the Function constructor\<close>

lemma typeof_string_iff: "typeof v = ''string'' \<longleftrightarrow> is_string v"
  by (cases v) (simp_all add: is_string_def)

lemma memory_message_bounds:
  "names_number MEMORY_MESSAGE 128 \<and> names_number MEMORY_MESSAGE 8192"
  by (simp add: names_number_def decimal_int_def MEMORY_MESSAGE_def)

lemma timeout_message_bounds:
  "names_number TIMEOUT_MESSAGE 1 \<and> names_number TIMEOUT_MESSAGE 540"
  by (simp add: names_number_def decimal_int_def TIMEOUT_MESSAGE_def)

text \<open>
  C3, as amended. A memory that is present, not zero and outside 128..8192 makes the
  constructor throw the memory error; a timeout that is present with seconds outside
  1..540 makes it throw too (the timeout error when the memory is absent or in range);
  props whose memory and timeout are each absent or in range are accepted. Each message
  is a constant text naming both of its bounds.
\<close>

theorem Function_constructor_limits:
  "(memory props = Some m \<and> m \<noteq> 0 \<and> (m < 128 \<or> 8192 < m)
      \<longrightarrow> Function_constructor props = Inl (Error MEMORY_MESSAGE))
   \<and> (timeout props = Some d \<and> (seconds d < 1 \<or> 540 < seconds d)
      \<longrightarrow> Function_constructor props = Inl (Error MEMORY_MESSAGE)
          \<or> Function_constructor props = Inl (Error TIMEOUT_MESSAGE))
   \<and> ((memory props = None \<or> (\<exists>k. memory props = Some k \<and> 128 \<le> k \<and> k \<le> 8192))
        \<and> timeout props = Some d \<and> (seconds d < 1 \<or> 540 < seconds d)
      \<longrightarrow> Function_constructor props = Inl (Error TIMEOUT_MESSAGE))
   \<and> ((memory props = None \<or> (\<exists>k. memory props = Some k \<and> 128 \<le> k \<and> k \<le> 8192))
        \<and> (timeout props = None \<or>
             (\<exists>t. timeout props = Some t \<and> 1 \<le> seconds t \<and> seconds t \<le> 540))
      \<longrightarrow> (\<exists>cfg. Function_constructor props = Inr cfg))
   \<and> names_number MEMORY_MESSAGE 128 \<and> names_number MEMORY_MESSAGE 8192
   \<and> names_number TIMEOUT_MESSAGE 1 \<and> names_number TIMEOUT_MESSAGE 540"
proof -
  have mem: "memory props = Some m \<and> m \<noteq> 0 \<and> (m < 128 \<or> 8192 < m)
      \<longrightarrow> Function_constructor props = Inl (Error MEMORY_MESSAGE)"
    by (auto simp: Function_constructor_def truthy_number_def)
  have tmo: "timeout props = Some d \<and> (seconds d < 1 \<or> 540 < seconds d)
      \<longrightarrow> Function_constructor props = Inl (Error MEMORY_MESSAGE)
          \<or> Function_constructor props = Inl (Error TIMEOUT_MESSAGE)"
    by (auto simp: Function_constructor_def split: option.splits)
  have tmo': "(memory props = None \<or> (\<exists>k. memory props = Some k \<and> 128 \<le> k \<and> k \<le> 8192))
        \<and> timeout props = Some d \<and> (seconds d < 1 \<or> 540 < seconds d)
      \<longrightarrow> Function_constructor props = Inl (Error TIMEOUT_MESSAGE)"
    by (auto simp: Function_constructor_def truthy_number_def)
  have ok: "(memory props = None \<or> (\<exists>k. memory props = Some k \<and> 128 \<le> k \<and> k \<le> 8192))
        \<and> (timeout props = None \<or>
             (\<exists>t. timeout props = Some t \<and> 1 \<le> seconds t \<and> seconds t \<le> 540))
      \<longrightarrow> (\<exists>cfg. Function_constructor props = Inr cfg)"
    by (auto simp: Function_constructor_def truthy_number_def split: option.splits)
  from mem tmo tmo' ok memory_message_bounds timeout_message_bounds show ?thesis
    by blast
qed

theorem Function_constructor_limits_witness:
  "Function_constructor \<lparr>memory = Some 9000, timeout = None, env = None\<rparr>
     = Inl (Error MEMORY_MESSAGE)
   \<and> Function_constructor \<lparr>memory = Some 256, timeout = Some \<lparr>seconds = 600\<rparr>, env = None\<rparr>
     = Inl (Error TIMEOUT_MESSAGE)
   \<and> (\<exists>cfg. Function_constructor \<lparr>memory = Some 256, timeout = Some \<lparr>seconds = 30\<rparr>, env = None\<rparr>
     = Inr cfg)"
  using Function_constructor_limits
          [of "\<lparr>memory = Some 9000, timeout = None, env = None\<rparr>" 9000 "\<lparr>seconds = 600\<rparr>"]
        Function_constructor_limits
          [of "\<lparr>memory = Some 256, timeout = Some \<lparr>seconds = 600\<rparr>, env = None\<rparr>" 256
              "\<lparr>seconds = 600\<rparr>"]
        Function_constructor_limits
          [of "\<lparr>memory = Some 256, timeout = Some \<lparr>seconds = 30\<rparr>, env = None\<rparr>" 256
              "\<lparr>seconds = 30\<rparr>"]
  by simp

text \<open>
  C3, as stated, fails: with a memory of 9000 MB the constructor throws, but the message
  is the constant text and does not name the offending value 9000.
\<close>

theorem Function_constructor_message_counterexample:
  "Function_constructor \<lparr>memory = Some 9000, timeout = None, env = None\<rparr>
     = Inl (Error MEMORY_MESSAGE)
   \<and> \<not> names_number MEMORY_MESSAGE 9000"
  by (simp add: Function_constructor_def truthy_number_def names_number_def decimal_int_def
        MEMORY_MESSAGE_def)

text \<open>
  C10. A memory of 0 is not rejected although 0 is outside 128..8192, and the function is
  then given 0 MB; an absent memory gives the default of 128 MB; and whenever the
  constructor accepts props that carry a memory, the function is given exactly that value,
  so the default is used for an absent memory only.
\<close>

theorem Function_constructor_memory_zero:
  "Function_constructor \<lparr>memory = Some 0, timeout = None, env = None\<rparr> \<noteq> Inl (Error MEMORY_MESSAGE)
   \<and> (\<exists>cfg. Function_constructor \<lparr>memory = Some 0, timeout = None, env = None\<rparr> = Inr cfg
          \<and> availableMemoryMb cfg = 0)
   \<and> (memory props = Some 0 \<longrightarrow> Function_constructor props \<noteq> Inl (Error MEMORY_MESSAGE))
   \<and> (memory props = Some 0 \<and> Function_constructor props = Inr cfg
        \<longrightarrow> availableMemoryMb cfg = 0)
   \<and> (memory props = None \<and> Function_constructor props = Inr cfg
        \<longrightarrow> availableMemoryMb cfg = 128)
   \<and> (memory props = Some m \<and> Function_constructor props = Inr cfg
        \<longrightarrow> availableMemoryMb cfg = m)"
  by (auto simp: Function_constructor_def truthy_number_def MEMORY_MESSAGE_def TIMEOUT_MESSAGE_def
           split: if_splits)

theorem Function_constructor_memory_zero_witness:
  "availableMemoryMb
     \<lparr> description = ''This function was created by Wing'', runtime = ''nodejs16'',
       availableMemoryMb = 0, entryPoint = ''handler'', triggerHttp = True,
       timeoutSeconds = 60, environmentVariables = [] \<rparr> = 0
   \<and> Function_constructor \<lparr>memory = Some 0, timeout = None, env = None\<rparr>
       = Inr \<lparr> description = ''This function was created by Wing'', runtime = ''nodejs16'',
               availableMemoryMb = 0, entryPoint = ''handler'', triggerHttp = True,
               timeoutSeconds = 60, environmentVariables = [] \<rparr>
   \<and> Function_constructor \<lparr>memory = None, timeout = None, env = None\<rparr>
       = Inr \<lparr> description = ''This function was created by Wing'', runtime = ''nodejs16'',
               availableMemoryMb = 128, entryPoint = ''handler'', triggerHttp = True,
               timeoutSeconds = 60, environmentVariables = [] \<rparr>"
  using Function_constructor_memory_zero
          [of "\<lparr>memory = Some 0, timeout = None, env = None\<rparr>"
              "\<lparr> description = ''This function was created by Wing'', runtime = ''nodejs16'',
                 availableMemoryMb = 0, entryPoint = ''handler'', triggerHttp = True,
                 timeoutSeconds = 60, environmentVariables = [] \<rparr>" 0]
  by (simp add: Function_constructor_def truthy_number_def)


section \<open>Properties of the narrowing accessor\<close>

lemma isAwsApi_iff:
  "isAwsApi obj \<longleftrightarrow> (\<forall>k \<in> set IAwsApi_fields. is_string (get_prop obj k))"
  by (simp add: isAwsApi_def IAwsApi_fields_def typeof_string_iff)

text \<open>
  C8. \<open>Api.from\<close> is total on objects: it yields the absent result exactly when one of the
  six fields of \<open>IAwsApi\<close> does not hold a string, and otherwise yields the object it was
  given, unchanged.
\<close>

theorem Api_from_total:
  "(Api_from api = None \<longleftrightarrow> (\<exists>k \<in> set IAwsApi_fields. \<not> is_string (get_prop api k)))
   \<and> (Api_from api = Some api \<longleftrightarrow> (\<forall>k \<in> set IAwsApi_fields. is_string (get_prop api k)))
   \<and> (Api_from api = None \<or> Api_from api = Some api)"
  by (auto simp: Api_from_def isAwsApi_iff)

theorem Api_from_total_witness:
  "Api_from (map_of [(''restApiArn'', JString ''arn''), (''restApiId'', JString ''id''),
                     (''restApiName'', JString ''api''), (''stageName'', JString ''prod''),
                     (''invokeUrl'', JString ''https://x''), (''deploymentId'', JString ''d1'')])
     = Some (map_of [(''restApiArn'', JString ''arn''), (''restApiId'', JString ''id''),
                     (''restApiName'', JString ''api''), (''stageName'', JString ''prod''),
                     (''invokeUrl'', JString ''https://x''), (''deploymentId'', JString ''d1'')])
   \<and> Api_from (map_of [(''restApiArn'', JString ''arn''), (''restApiId'', JNumber 7)]) = None"
proof -
  let ?a = "map_of [(''restApiArn'', JString ''arn''), (''restApiId'', JString ''id''),
                     (''restApiName'', JString ''api''), (''stageName'', JString ''prod''),
                     (''invokeUrl'', JString ''https://x''), (''deploymentId'', JString ''d1'')]"
  let ?b = "map_of [(''restApiArn'', JString ''arn''), (''restApiId'', JNumber 7)]"
  have a: "\<forall>k \<in> set IAwsApi_fields. is_string (get_prop ?a k)"
    by (simp add: IAwsApi_fields_def get_prop_def is_string_def)
  have b: "\<exists>k \<in> set IAwsApi_fields. \<not> is_string (get_prop ?b k)"
    by (simp add: IAwsApi_fields_def get_prop_def is_string_def)
  from a b Api_from_total [of ?a] Api_from_total [of ?b] show ?thesis
    by blast
qed


section \<open>Properties of the environment variable name\<close>

lemma js_slice_suffix:
  "0 < n \<Longrightarrow> n \<le> length s \<Longrightarrow> js_slice s (- int n) = drop (length s - n) s"
  by (simp add: js_slice_def Let_def nat_diff_distrib' max_def)

text \<open>
  C9. For a 42 character address the name is the prefix \<open>SCHEDULER_JOB_\<close> followed by the
  last 8 characters of the address, 22 characters in all; it depends on nothing but the
  address.
\<close>

theorem envName_suffix:
  "length a = 42 \<Longrightarrow>
     envName a = ''SCHEDULER_JOB_'' @ drop 34 a
     \<and> length (drop 34 a) = 8
     \<and> take 34 a @ drop 34 a = a
     \<and> length (envName a) = 22"
  using js_slice_suffix [of 8 a] by (simp add: envName_def)

theorem envName_suffix_witness:
  "length ''c83a2846e506bcc5f10682b564084bca2d275709ee'' = 42
   \<and> envName ''c83a2846e506bcc5f10682b564084bca2d275709ee'' = ''SCHEDULER_JOB_275709ee''"
  using envName_suffix [of "''c83a2846e506bcc5f10682b564084bca2d275709ee''"] by simp


section \<open>Properties of lazy attachment\<close>

lemma Node_of_cached:
  "node_symbol s c = Some n \<Longrightarrow> Node_of root c s = (n, s)"
  by (simp add: Node_of_def)

lemma Display_of_cached:
  "display_symbol s c = Some d \<Longrightarrow> Display_of c s = (d, s)"
  by (simp add: Display_of_def)

lemma Node_of_stores:
  "node_symbol (snd (Node_of root c s)) c = Some (fst (Node_of root c s))"
  by (simp add: Node_of_def new_Node_def Connections_of_def Let_def split: option.splits)

lemma Display_of_stores:
  "display_symbol (snd (Display_of c s)) c = Some (fst (Display_of c s))"
  by (simp add: Display_of_def split: option.splits)

lemma attach_step_keeps_node:
  "node_symbol s c = Some n \<Longrightarrow> node_symbol (attach_step root x s) c = Some n"
  by (cases x)
     (auto simp: Node_of_def new_Node_def Connections_of_def Display_of_def Let_def
           split: option.splits)

lemma attach_step_keeps_display:
  "display_symbol s c = Some d \<Longrightarrow> display_symbol (attach_step root x s) c = Some d"
  by (cases x)
     (auto simp: Node_of_def new_Node_def Connections_of_def Display_of_def Let_def
           split: option.splits)

lemma attach_run_keeps_node:
  "node_symbol s c = Some n \<Longrightarrow> node_symbol (attach_run root xs s) c = Some n"
  by (induction xs arbitrary: s) (simp_all add: attach_step_keeps_node)

lemma attach_run_keeps_display:
  "display_symbol s c = Some d \<Longrightarrow> display_symbol (attach_run root xs s) c = Some d"
  by (induction xs arbitrary: s) (simp_all add: attach_step_keeps_display)

lemma Node_of_fresh:
  "node_symbol s c = None \<Longrightarrow> allocated s \<le> fst (Node_of root c s)"
  by (simp add: Node_of_def new_Node_def Connections_of_def Let_def split: option.splits)

lemma Display_of_fresh:
  "display_symbol s c = None \<Longrightarrow> fst (Display_of c s) = allocated s"
  by (simp add: Display_of_def)

lemma Node_of_first:
  "node_symbol s c = None \<Longrightarrow>
     allocated s \<le> fst (Node_of root c s)
     \<and> fst (Node_of root c s) < allocated (snd (Node_of root c s))
     \<and> node_fields (snd (Node_of root c s)) (fst (Node_of root c s))
         = Some (c, fst (Connections_of root c s))
     \<and> allocated (snd (Node_of root c s)) = Suc (fst (Node_of root c s))"
  by (simp add: Node_of_def new_Node_def Connections_of_def Let_def split: option.splits)

lemma Display_of_first:
  "display_symbol s c = None \<Longrightarrow>
     fst (Display_of c s) = allocated s
     \<and> allocated (snd (Display_of c s)) = Suc (allocated s)"
  by (simp add: Display_of_def)

lemma consistent_empty: "consistent empty_attachments"
  by (simp add: consistent_def empty_attachments_def)

lemma Node_of_effect:
  "node_symbol s c = None \<Longrightarrow>
     node_symbol (snd (Node_of root c s)) = (node_symbol s)(c \<mapsto> fst (Node_of root c s))
     \<and> display_symbol (snd (Node_of root c s)) = display_symbol s"
  by (simp add: Node_of_def new_Node_def Connections_of_def Let_def split: option.splits)

lemma Display_of_effect:
  "display_symbol s c = None \<Longrightarrow>
     display_symbol (snd (Display_of c s)) = (display_symbol s)(c \<mapsto> allocated s)
     \<and> node_symbol (snd (Display_of c s)) = node_symbol s"
  by (simp add: Display_of_def)

lemma consistent_Node_of:
  assumes "consistent s"
  shows "consistent (snd (Node_of root c s))"
proof (cases "node_symbol s c")
  case (Some n)
  with assms show ?thesis by (simp add: Node_of_cached)
next
  case None
  let ?n = "fst (Node_of root c s)" and ?s1 = "snd (Node_of root c s)"
  from Node_of_first [OF None, of root] have
    lo: "allocated s \<le> ?n" and al: "allocated ?s1 = Suc ?n" by simp_all
  from Node_of_effect [OF None, of root] have
    ns: "node_symbol ?s1 = (node_symbol s)(c \<mapsto> ?n)" and ds: "display_symbol ?s1 = display_symbol s"
    by simp_all
  have old: "m < allocated s" if "node_symbol s c' = Some m" for c' m
    using assms that unfolding consistent_def by blast
  have oldinj: "c'' = c'" if "node_symbol s c' = Some m" "node_symbol s c'' = Some m" for c' c'' m
    using assms that unfolding consistent_def by blast
  have dold: "d < allocated s \<and> (\<forall>c''. display_symbol s c'' = Some d \<longrightarrow> c'' = c')"
    if "display_symbol s c' = Some d" for c' d
    using assms that unfolding consistent_def by blast
  show ?thesis
    unfolding consistent_def
  proof (intro conjI allI impI)
    fix c' m assume a: "node_symbol ?s1 c' = Some m"
    show "m < allocated ?s1"
    proof (cases "c' = c")
      case True
      with a ns al show ?thesis by simp
    next
      case False
      with a ns have "node_symbol s c' = Some m" by simp
      from old [OF this] lo al show ?thesis by simp
    qed
  next
    fix c' m c'' assume a: "node_symbol ?s1 c' = Some m" and b: "node_symbol ?s1 c'' = Some m"
    show "c'' = c'"
    proof (cases "c' = c")
      case True
      with a ns have m: "m = ?n" by simp
      show ?thesis
      proof (cases "c'' = c")
        case True
        with \<open>c' = c\<close> show ?thesis by simp
      next
        case False
        with b ns have "node_symbol s c'' = Some m" by simp
        from old [OF this] m lo show ?thesis by simp
      qed
    next
      case False
      with a ns have a': "node_symbol s c' = Some m" by simp
      show ?thesis
      proof (cases "c'' = c")
        case True
        with b ns have "m = ?n" by simp
        with old [OF a'] lo show ?thesis by simp
      next
        case False
        with b ns have "node_symbol s c'' = Some m" by simp
        with a' show ?thesis by (rule oldinj)
      qed
    qed
  next
    fix c' d assume "display_symbol ?s1 c' = Some d"
    with ds have "display_symbol s c' = Some d" by simp
    from dold [OF this] lo al show "d < allocated ?s1" by simp
  next
    fix c' d c'' assume "display_symbol ?s1 c' = Some d" "display_symbol ?s1 c'' = Some d"
    with ds have "display_symbol s c' = Some d" "display_symbol s c'' = Some d" by simp_all
    with dold show "c'' = c'" by blast
  qed
qed

lemma consistent_Display_of:
  assumes "consistent s"
  shows "consistent (snd (Display_of c s))"
proof (cases "display_symbol s c")
  case (Some n)
  with assms show ?thesis by (simp add: Display_of_cached)
next
  case None
  let ?s1 = "snd (Display_of c s)"
  from Display_of_first [OF None] have al: "allocated ?s1 = Suc (allocated s)" by simp
  from Display_of_effect [OF None] have
    ds: "display_symbol ?s1 = (display_symbol s)(c \<mapsto> allocated s)"
    and ns: "node_symbol ?s1 = node_symbol s"
    by simp_all
  have old: "m < allocated s" if "display_symbol s c' = Some m" for c' m
    using assms that unfolding consistent_def by blast
  have oldinj: "c'' = c'" if "display_symbol s c' = Some m" "display_symbol s c'' = Some m"
    for c' c'' m
    using assms that unfolding consistent_def by blast
  have nold: "d < allocated s \<and> (\<forall>c''. node_symbol s c'' = Some d \<longrightarrow> c'' = c')"
    if "node_symbol s c' = Some d" for c' d
    using assms that unfolding consistent_def by blast
  show ?thesis
    unfolding consistent_def
  proof (intro conjI allI impI)
    fix c' d assume "node_symbol ?s1 c' = Some d"
    with ns have "node_symbol s c' = Some d" by simp
    from nold [OF this] al show "d < allocated ?s1" by simp
  next
    fix c' d c'' assume "node_symbol ?s1 c' = Some d" "node_symbol ?s1 c'' = Some d"
    with ns have "node_symbol s c' = Some d" "node_symbol s c'' = Some d" by simp_all
    with nold show "c'' = c'" by blast
  next
    fix c' m assume a: "display_symbol ?s1 c' = Some m"
    show "m < allocated ?s1"
    proof (cases "c' = c")
      case True
      with a ds al show ?thesis by simp
    next
      case False
      with a ds have "display_symbol s c' = Some m" by simp
      from old [OF this] al show ?thesis by simp
    qed
  next
    fix c' m c'' assume a: "display_symbol ?s1 c' = Some m" and b: "display_symbol ?s1 c'' = Some m"
    show "c'' = c'"
    proof (cases "c' = c")
      case True
      with a ds have m: "m = allocated s" by simp
      show ?thesis
      proof (cases "c'' = c")
        case True
        with \<open>c' = c\<close> show ?thesis by simp
      next
        case False
        with b ds have "display_symbol s c'' = Some m" by simp
        from old [OF this] m show ?thesis by simp
      qed
    next
      case False
      with a ds have a': "display_symbol s c' = Some m" by simp
      show ?thesis
      proof (cases "c'' = c")
        case True
        with b ds have "m = allocated s" by simp
        with old [OF a'] show ?thesis by simp
      next
        case False
        with b ds have "display_symbol s c'' = Some m" by simp
        with a' show ?thesis by (rule oldinj)
      qed
    qed
  qed
qed

lemma consistent_step: "consistent s \<Longrightarrow> consistent (attach_step root x s)"
  by (cases x) (simp_all add: consistent_Node_of consistent_Display_of)

lemma consistent_run: "consistent s \<Longrightarrow> consistent (attach_run root xs s)"
  by (induction xs arbitrary: s) (simp_all add: consistent_step)

lemma Node_of_distinct:
  assumes "consistent s" "c \<noteq> c'"
  shows "fst (Node_of root c s) \<noteq> fst (Node_of root c' (snd (Node_of root c s)))"
proof -
  let ?s1 = "snd (Node_of root c s)" and ?n = "fst (Node_of root c s)"
  have c1: "consistent ?s1" using assms(1) by (rule consistent_Node_of)
  have st: "node_symbol ?s1 c = Some ?n" by (rule Node_of_stores)
  show ?thesis
  proof (cases "node_symbol ?s1 c'")
    case None
    from Node_of_first [OF None, of root] have "allocated ?s1 \<le> fst (Node_of root c' ?s1)" by simp
    moreover from c1 st have "?n < allocated ?s1" unfolding consistent_def by blast
    ultimately show ?thesis by simp
  next
    case (Some m)
    then have "fst (Node_of root c' ?s1) = m" by (simp add: Node_of_cached)
    moreover from c1 st Some assms(2) have "m \<noteq> ?n" unfolding consistent_def by blast
    ultimately show ?thesis by simp
  qed
qed

lemma Display_of_distinct:
  assumes "consistent s" "c \<noteq> c'"
  shows "fst (Display_of c s) \<noteq> fst (Display_of c' (snd (Display_of c s)))"
proof -
  let ?s1 = "snd (Display_of c s)" and ?n = "fst (Display_of c s)"
  have c1: "consistent ?s1" using assms(1) by (rule consistent_Display_of)
  have st: "display_symbol ?s1 c = Some ?n" by (rule Display_of_stores)
  show ?thesis
  proof (cases "display_symbol ?s1 c'")
    case None
    from Display_of_first [OF None] have "fst (Display_of c' ?s1) = allocated ?s1" by simp
    moreover from c1 st have "?n < allocated ?s1" unfolding consistent_def by blast
    ultimately show ?thesis by simp
  next
    case (Some m)
    then have "fst (Display_of c' ?s1) = m" by (simp add: Display_of_cached)
    moreover from c1 st Some assms(2) have "m \<noteq> ?n" unfolding consistent_def by blast
    ultimately show ?thesis by simp
  qed
qed

text \<open>
  C5. The first call of \<open>Node.of\<close> on a construct creates an object: its reference was
  not in use before and is in use afterwards, the object records the construct and the
  registry it was given, and the reference is stored on the construct. A second call
  returns the same reference and changes nothing; and after any further calls of the two
  accessors, on any constructs, \<open>Node.of\<close> still returns that reference. The same holds
  for \<open>Display.of\<close>, whose first call creates exactly one object. In every store reached
  from the empty one, two different constructs get two different companions.
\<close>

theorem attachment_idempotent:
  "(node_symbol s c = None \<longrightarrow>
      allocated s \<le> fst (Node_of root c s)
      \<and> fst (Node_of root c s) < allocated (snd (Node_of root c s))
      \<and> node_fields (snd (Node_of root c s)) (fst (Node_of root c s))
          = Some (c, fst (Connections_of root c s))
      \<and> node_symbol (snd (Node_of root c s)) c = Some (fst (Node_of root c s)))
   \<and> Node_of root c (snd (Node_of root c s)) = (fst (Node_of root c s), snd (Node_of root c s))
   \<and> fst (Node_of root c (attach_run root calls (snd (Node_of root c s))))
       = fst (Node_of root c s)
   \<and> (display_symbol s c = None \<longrightarrow>
      fst (Display_of c s) = allocated s
      \<and> allocated (snd (Display_of c s)) = Suc (allocated s)
      \<and> display_symbol (snd (Display_of c s)) c = Some (fst (Display_of c s)))
   \<and> Display_of c (snd (Display_of c s)) = (fst (Display_of c s), snd (Display_of c s))
   \<and> fst (Display_of c (attach_run root calls (snd (Display_of c s))))
       = fst (Display_of c s)
   \<and> consistent (attach_run root calls empty_attachments :: 'c attachments)
   \<and> (consistent s \<and> c \<noteq> c' \<longrightarrow>
      fst (Node_of root c s) \<noteq> fst (Node_of root c' (snd (Node_of root c s)))
      \<and> fst (Display_of c s) \<noteq> fst (Display_of c' (snd (Display_of c s))))"
proof -
  have n2: "Node_of root c (snd (Node_of root c s))
             = (fst (Node_of root c s), snd (Node_of root c s))"
    by (rule Node_of_cached) (rule Node_of_stores)
  have n3: "fst (Node_of root c (attach_run root calls (snd (Node_of root c s))))
             = fst (Node_of root c s)"
    using attach_run_keeps_node [OF Node_of_stores, of root calls root c s]
    by (simp add: Node_of_cached)
  have d2: "Display_of c (snd (Display_of c s))
             = (fst (Display_of c s), snd (Display_of c s))"
    by (rule Display_of_cached) (rule Display_of_stores)
  have d3: "fst (Display_of c (attach_run root calls (snd (Display_of c s))))
             = fst (Display_of c s)"
    using attach_run_keeps_display [OF Display_of_stores, of root calls c s]
    by (simp add: Display_of_cached)
  have r: "consistent (attach_run root calls empty_attachments :: 'c attachments)"
    by (rule consistent_run) (rule consistent_empty)
  from n2 n3 d2 d3 r Node_of_first [of s c root] Node_of_stores [of root c s]
       Display_of_first [of s c] Display_of_stores [of c s]
       Node_of_distinct [of s c c' root] Display_of_distinct [of s c c']
  show ?thesis by blast
qed

theorem attachment_idempotent_witness:
  "fst (Node_of (\<lambda>c. 0) (1::nat) empty_attachments) = 1
   \<and> fst (Node_of (\<lambda>c. 0) (1::nat)
          (attach_run (\<lambda>c. 0) [DisplayOf 1, NodeOf 2, DisplayOf 2]
            (snd (Node_of (\<lambda>c. 0) (1::nat) empty_attachments)))) = 1
   \<and> fst (Display_of (1::nat) empty_attachments) = 0
   \<and> fst (Display_of (1::nat)
          (attach_run (\<lambda>c. 0) [DisplayOf 1, NodeOf 2, DisplayOf 2]
            (snd (Display_of (1::nat) empty_attachments)))) = 0
   \<and> node_fields (snd (Node_of (\<lambda>c. 0) (1::nat) empty_attachments)) 1 = Some (1, 0)
   \<and> allocated (snd (Node_of (\<lambda>c. 0) (1::nat) empty_attachments)) = 2
   \<and> allocated (snd (Display_of (1::nat) empty_attachments)) = 1
   \<and> fst (Node_of (\<lambda>c. 0) (2::nat) (snd (Node_of (\<lambda>c. 0) (1::nat) empty_attachments))) \<noteq> 1
   \<and> fst (Display_of (2::nat) (snd (Display_of (1::nat) empty_attachments))) \<noteq> 0"
proof -
  let ?s = "empty_attachments :: nat attachments"
  let ?calls = "[DisplayOf 1, NodeOf 2, DisplayOf 2] :: nat attach_call list"
  have n: "fst (Node_of (\<lambda>c. 0) 1 ?s) = 1"
    by (simp add: Node_of_def new_Node_def Connections_of_def empty_attachments_def)
  have d: "fst (Display_of 1 ?s) = 0"
    by (simp add: Display_of_def empty_attachments_def)
  have conn: "fst (Connections_of (\<lambda>c. 0) 1 ?s) = 0"
    by (simp add: Connections_of_def empty_attachments_def)
  have none: "node_symbol ?s 1 = None" "display_symbol ?s 1 = None" "allocated ?s = 0"
    by (simp_all add: empty_attachments_def)
  have ne: "(1::nat) \<noteq> 2" by simp
  note main = attachment_idempotent
      [where s = ?s and c = 1 and root = "\<lambda>c. 0" and calls = ?calls and c' = 2]
  from main have n3:
    "fst (Node_of (\<lambda>c. 0) 1 (attach_run (\<lambda>c. 0) ?calls (snd (Node_of (\<lambda>c. 0) 1 ?s))))
       = fst (Node_of (\<lambda>c. 0) 1 ?s)"
    by blast
  from main have d3:
    "fst (Display_of 1 (attach_run (\<lambda>c. 0) ?calls (snd (Display_of 1 ?s))))
       = fst (Display_of 1 ?s)"
    by blast
  from main none(1) have nf:
    "node_fields (snd (Node_of (\<lambda>c. 0) 1 ?s)) (fst (Node_of (\<lambda>c. 0) 1 ?s))
       = Some (1, fst (Connections_of (\<lambda>c. 0) 1 ?s))"
    by blast
  have na: "allocated (snd (Node_of (\<lambda>c. 0) 1 ?s)) = 2"
    by (simp add: Node_of_def new_Node_def Connections_of_def empty_attachments_def)
  from main none(2) have da: "allocated (snd (Display_of 1 ?s)) = Suc (allocated ?s)"
    by blast
  from main consistent_empty [where 'a = nat] ne have
    dn: "fst (Node_of (\<lambda>c. 0) 1 ?s) \<noteq> fst (Node_of (\<lambda>c. 0) 2 (snd (Node_of (\<lambda>c. 0) 1 ?s)))"
    and dd: "fst (Display_of 1 ?s) \<noteq> fst (Display_of 2 (snd (Display_of 1 ?s)))"
    by blast+
  show ?thesis
    using n n3 [unfolded n] d d3 [unfolded d] nf [unfolded n conn] na da [unfolded none(3)]
          dn [unfolded n] dd [unfolded d]
    by (simp del: One_nat_def)
qed


section \<open>Properties of the address\<close>

lemma hex_digit_lower: "hex_digit n \<in> set ''0123456789abcdef''"
  unfolding hex_digit_def by (rule nth_mem) simp

lemma hex_of_digest_length: "length (hex_of_digest w) = 40"
  by (simp add: hex_of_digest_def)

lemma hex_of_digest_chars: "set (hex_of_digest w) \<subseteq> set ''0123456789abcdef''"
  unfolding hex_of_digest_def using hex_digit_lower by auto

lemma differ_by_default_filter:
  "differ_by_default p q \<Longrightarrow>
     filter (\<lambda>seg. seg \<noteq> ''Default'') p = filter (\<lambda>seg. seg \<noteq> ''Default'') q"
  by (induction rule: differ_by_default.induct) simp_all

text \<open>
  C1. Two id sequences that differ only by segments equal to \<open>Default\<close> have the same
  address, whatever the digest; in particular a \<open>Default\<close> segment inserted anywhere
  leaves the address unchanged, and the paths App/Queue/Topic and
  App/Queue/Default/Topic have one address.
\<close>

theorem addr_transparent:
  "(differ_by_default p q \<longrightarrow> addr digest p = addr digest q)
   \<and> addr digest (xs @ ''Default'' # ys) = addr digest (xs @ ys)
   \<and> addr digest [''App'', ''Queue'', ''Topic'']
       = addr digest [''App'', ''Queue'', ''Default'', ''Topic'']"
  by (auto simp: addr_def dest: differ_by_default_filter)

theorem addr_transparent_witness:
  "differ_by_default [''App'', ''Queue'', ''Topic''] [''App'', ''Queue'', ''Default'', ''Topic'']
   \<and> (\<forall>digest. addr digest [''App'', ''Queue'', ''Topic'']
         = addr digest [''App'', ''Queue'', ''Default'', ''Topic''])"
proof -
  have d: "differ_by_default [''App'', ''Queue'', ''Topic'']
             [''App'', ''Queue'', ''Default'', ''Topic'']"
    by (intro same_segment wrapper_right both_empty)
  from d addr_transparent
         [of "[''App'', ''Queue'', ''Topic'']" "[''App'', ''Queue'', ''Default'', ''Topic'']"]
  show ?thesis by blast
qed

lemma hex_digit_inj: "hex_digit m = hex_digit n \<longleftrightarrow> m mod 16 = n mod 16"
proof -
  have d: "distinct ''0123456789abcdef''" by simp
  have l: "length ''0123456789abcdef'' = 16" by simp
  show ?thesis
    unfolding hex_digit_def
    using nth_eq_iff_index_eq [OF d, of "m mod 16" "n mod 16"] l by simp
qed

lemma nibble_bit:
  "j < 4 \<Longrightarrow> bit (unat (drop_bit k w) mod 16) j \<longleftrightarrow> bit (w :: 160 word) (k + j)"
proof -
  assume j: "j < 4"
  have "unat (drop_bit k w) mod 16 = take_bit 4 (unat (drop_bit k w))"
    by (simp add: take_bit_eq_mod)
  then show ?thesis using j
    by (simp add: bit_take_bit_iff bit_unsigned_iff bit_drop_bit_eq)
qed

lemma hex_of_digest_nth:
  "i < 40 \<Longrightarrow> hex_of_digest w ! i = hex_digit (unat (drop_bit (4 * (39 - i)) w))"
  by (simp add: hex_of_digest_def)

lemma hex_of_digest_inj: "hex_of_digest w = hex_of_digest w' \<longleftrightarrow> w = w'"
proof
  assume eq: "hex_of_digest w = hex_of_digest w'"
  have nib: "unat (drop_bit (4 * m) w) mod 16 = unat (drop_bit (4 * m) w') mod 16" if "m < 40" for m
  proof -
    from that have i: "39 - m < 40" and m: "39 - (39 - m) = m" by simp_all
    from eq have "hex_of_digest w ! (39 - m) = hex_of_digest w' ! (39 - m)" by simp
    with i m show ?thesis by (simp add: hex_of_digest_nth hex_digit_inj)
  qed
  show "w = w'"
  proof (rule bit_word_eqI)
    fix n assume "n < LENGTH(160)"
    then have n: "n div 4 < 40" "n mod 4 < 4" by simp_all
    have "bit w (4 * (n div 4) + n mod 4) = bit w' (4 * (n div 4) + n mod 4)"
      using nib [OF n(1)] nibble_bit [OF n(2), of "4 * (n div 4)" w]
            nibble_bit [OF n(2), of "4 * (n div 4)" w'] by simp
    then show "bit w n = bit w' n" by simp
  qed
qed simp

text \<open>
  C2. Every address is 42 characters long: the tag \<open>c8\<close>, then 40 characters, each a
  lowercase hexadecimal digit. The 40 characters are the digest of the path components
  (the ids other than \<open>Default\<close>) written out four bits at a time, the most significant
  first; so two addresses are equal exactly when the two digests are.
\<close>

theorem addr_format:
  "length (addr digest segments) = 42
   \<and> take 2 (addr digest segments) = ''c8''
   \<and> length (drop 2 (addr digest segments)) = 40
   \<and> set (drop 2 (addr digest segments)) \<subseteq> set ''0123456789abcdef''
   \<and> drop 2 (addr digest segments)
       = map (\<lambda>i. ''0123456789abcdef'' !
                 (unat (drop_bit (4 * (39 - i))
                    (digest (filter (\<lambda>seg. seg \<noteq> ''Default'') segments))) mod 16))
           [0..<40]
   \<and> (addr digest segments = addr digest segments'
        \<longleftrightarrow> digest (filter (\<lambda>seg. seg \<noteq> ''Default'') segments)
              = digest (filter (\<lambda>seg. seg \<noteq> ''Default'') segments'))"
proof -
  have fmt: "length (addr digest segments) = 42
      \<and> take 2 (addr digest segments) = ''c8''
      \<and> length (drop 2 (addr digest segments)) = 40
      \<and> set (drop 2 (addr digest segments)) \<subseteq> set ''0123456789abcdef''"
    using hex_of_digest_chars [of "digest (filter (\<lambda>seg. seg \<noteq> ''Default'') segments)"]
    by (simp add: addr_def hex_of_digest_length)
  have render: "drop 2 (addr digest segments)
       = map (\<lambda>i. ''0123456789abcdef'' !
                 (unat (drop_bit (4 * (39 - i))
                    (digest (filter (\<lambda>seg. seg \<noteq> ''Default'') segments))) mod 16))
           [0..<40]"
    by (simp only: addr_def hex_of_digest_def hex_digit_def drop_all append_Nil
          drop_Suc_Cons drop0 numeral_2_eq_2 append_Cons)
  have inj: "addr digest segments = addr digest segments'
        \<longleftrightarrow> digest (filter (\<lambda>seg. seg \<noteq> ''Default'') segments)
              = digest (filter (\<lambda>seg. seg \<noteq> ''Default'') segments')"
    by (simp add: addr_def hex_of_digest_inj)
  from fmt render inj show ?thesis by blast
qed

text \<open>
  The rendering at work: were the digest of a path \<open>3a2846e5...275709ee\<close>, its address
  would be the one \<open>node.ts\<close> gives as an example.
\<close>

lemma addr_example:
  "addr (\<lambda>segs. 0x3a2846e506bcc5f10682b564084bca2d275709ee) [''App'', ''Queue'']
     = ''c83a2846e506bcc5f10682b564084bca2d275709ee''"
  by (simp add: addr_def hex_of_digest_def hex_digit_def upt_rec)


section \<open>Properties of the construct tree\<close>

declare locked.simps [simp del]

lemma lock_map_of:
  "lock t p = Inr t' \<Longrightarrow>
     \<exists>n. map_of t p = Some n \<and> map_of t' = (map_of t)(p \<mapsto> n\<lparr>is_locked := True\<rparr>)"
  by (auto simp: lock_def update_conv' split: option.splits)

lemma addValidation_map_of:
  "addValidation t p v = Inr t' \<Longrightarrow>
     \<exists>n. map_of t p = Some n
        \<and> map_of t' = (map_of t)(p \<mapsto> n\<lparr>validations := validations n @ [v]\<rparr>)"
  by (auto simp: addValidation_def update_conv' split: option.splits)

lemma addChild_map_of:
  "addChild t p i = Inr t' \<Longrightarrow>
     \<exists>n. map_of t p = Some n \<and> \<not> locked t p \<and> i \<notin> set (child_ids n)
        \<and> map_of t' = (map_of t)(p \<mapsto> n\<lparr>child_ids := child_ids n @ [i]\<rparr>,
                                   p @ [i] \<mapsto> new_cnode)"
  by (auto simp: addChild_def update_conv' split: option.splits if_splits)

lemma prefix_butlast_iff:
  "p \<noteq> [] \<Longrightarrow> prefix r p \<longleftrightarrow> r = p \<or> prefix r (butlast p)"
  using prefix_snoc [of r "butlast p" "last p"] by simp

lemma locked_iff: "locked t q \<longleftrightarrow> (\<exists>r. prefix r q \<and> own_lock t r)"
proof (induction t q rule: locked.induct)
  case (1 t p)
  show ?case
  proof (cases "own_lock t p")
    case True
    then show ?thesis by (subst locked.simps) auto
  next
    case False
    show ?thesis
    proof (cases "p = []")
      case True
      with False show ?thesis by (subst locked.simps) simp
    next
      case nonempty: False
      with False 1 have "locked t (butlast p) \<longleftrightarrow> (\<exists>r. prefix r (butlast p) \<and> own_lock t r)"
        by simp
      moreover have "locked t p = locked t (butlast p)"
        using False nonempty by (subst locked.simps) simp
      ultimately show ?thesis
        using False nonempty prefix_butlast_iff [of p] by auto
    qed
  qed
qed

lemma well_formed_root: "well_formed [([], new_cnode)]"
  by (simp add: well_formed_def)

lemma well_formed_lock: "well_formed t \<Longrightarrow> lock t p = Inr t' \<Longrightarrow> well_formed t'"
proof -
  assume wf: "well_formed t" and l: "lock t p = Inr t'"
  from lock_map_of [OF l] obtain n where
    n: "map_of t p = Some n" and m: "map_of t' = (map_of t)(p \<mapsto> n\<lparr>is_locked := True\<rparr>)"
    by blast
  show ?thesis
    unfolding well_formed_def
  proof (intro allI impI)
    fix r i assume "map_of t' (r @ [i]) \<noteq> None"
    with m n have "map_of t (r @ [i]) \<noteq> None" by (auto split: if_splits)
    with wf obtain k where "map_of t r = Some k" "i \<in> set (child_ids k)"
      unfolding well_formed_def by blast
    with m n show "\<exists>k. map_of t' r = Some k \<and> i \<in> set (child_ids k)" by auto
  qed
qed

lemma well_formed_addValidation:
  "well_formed t \<Longrightarrow> addValidation t p v = Inr t' \<Longrightarrow> well_formed t'"
proof -
  assume wf: "well_formed t" and l: "addValidation t p v = Inr t'"
  from addValidation_map_of [OF l] obtain n where
    n: "map_of t p = Some n"
    and m: "map_of t' = (map_of t)(p \<mapsto> n\<lparr>validations := validations n @ [v]\<rparr>)"
    by blast
  show ?thesis
    unfolding well_formed_def
  proof (intro allI impI)
    fix r i assume "map_of t' (r @ [i]) \<noteq> None"
    with m n have "map_of t (r @ [i]) \<noteq> None" by (auto split: if_splits)
    with wf obtain k where "map_of t r = Some k" "i \<in> set (child_ids k)"
      unfolding well_formed_def by blast
    with m n show "\<exists>k. map_of t' r = Some k \<and> i \<in> set (child_ids k)" by auto
  qed
qed

lemma well_formed_addChild:
  "well_formed t \<Longrightarrow> addChild t p i = Inr t' \<Longrightarrow> well_formed t'"
proof -
  assume wf: "well_formed t" and l: "addChild t p i = Inr t'"
  from addChild_map_of [OF l] obtain n where
    n: "map_of t p = Some n" and fresh: "i \<notin> set (child_ids n)"
    and m: "map_of t' = (map_of t)(p \<mapsto> n\<lparr>child_ids := child_ids n @ [i]\<rparr>,
                                   p @ [i] \<mapsto> new_cnode)"
    by blast
  have absent: "map_of t (p @ [i]) = None"
    using wf n fresh unfolding well_formed_def by force
  show ?thesis
    unfolding well_formed_def
  proof (intro allI impI)
    fix r j assume a: "map_of t' (r @ [j]) \<noteq> None"
    show "\<exists>k. map_of t' r = Some k \<and> j \<in> set (child_ids k)"
    proof (cases "r @ [j] = p @ [i]")
      case True
      then have "r = p" "j = i" by simp_all
      with m show ?thesis by simp
    next
      case False
      with a m n have old: "map_of t (r @ [j]) \<noteq> None" by (auto split: if_splits)
      with wf obtain k where k: "map_of t r = Some k" "j \<in> set (child_ids k)"
        unfolding well_formed_def by blast
      from k absent have "r \<noteq> p @ [i]" by auto
      with k m n show ?thesis by (cases "r = p") auto
    qed
  qed
qed

lemma well_formed_step:
  "well_formed t \<Longrightarrow> tree_step x t = Inr t' \<Longrightarrow> well_formed t'"
  by (cases x) (auto intro: well_formed_addChild well_formed_lock well_formed_addValidation)

lemma well_formed_run: "well_formed t \<Longrightarrow> well_formed (tree_run xs t)"
  by (induction xs arbitrary: t) (auto split: sum.splits intro: well_formed_step)

lemma well_formed_tree_of: "well_formed (tree_of calls)"
  unfolding tree_of_def by (rule well_formed_run) (rule well_formed_root)

lemma own_lock_step:
  assumes "well_formed t" "tree_step x t = Inr t'" "own_lock t q"
  shows "own_lock t' q"
proof (cases x)
  case (AddChild p i)
  with assms(2) have l: "addChild t p i = Inr t'" by simp
  from addChild_map_of [OF l] obtain n where
    n: "map_of t p = Some n" and fresh: "i \<notin> set (child_ids n)"
    and m: "map_of t' = (map_of t)(p \<mapsto> n\<lparr>child_ids := child_ids n @ [i]\<rparr>,
                                   p @ [i] \<mapsto> new_cnode)"
    by blast
  have "map_of t (p @ [i]) = None"
    using assms(1) n fresh unfolding well_formed_def by force
  with assms(3) have "q \<noteq> p @ [i]" by (auto simp: own_lock_def)
  with assms(3) m n show ?thesis by (auto simp: own_lock_def)
next
  case (Lock p)
  with assms(2) have l: "lock t p = Inr t'" by simp
  from lock_map_of [OF l] assms(3) show ?thesis by (auto simp: own_lock_def)
next
  case (AddValidation p v)
  with assms(2) have l: "addValidation t p v = Inr t'" by simp
  from addValidation_map_of [OF l] assms(3) show ?thesis by (auto simp: own_lock_def)
qed

lemma own_lock_run:
  "well_formed t \<Longrightarrow> own_lock t q \<Longrightarrow> own_lock (tree_run xs t) q"
proof (induction xs arbitrary: t)
  case Nil
  then show ?case by simp
next
  case (Cons x xs)
  show ?case
  proof (cases "tree_step x t")
    case (Inl e)
    with Cons show ?thesis by simp
  next
    case (Inr t')
    with Cons.prems have "well_formed t'" "own_lock t' q"
      by (auto intro: well_formed_step own_lock_step)
    with Cons.IH [of t'] Inr show ?thesis by simp
  qed
qed

lemma node_step:
  "tree_step x t = Inr t' \<Longrightarrow> map_of t q \<noteq> None \<Longrightarrow> map_of t' q \<noteq> None"
  by (cases x)
     (auto dest!: addChild_map_of lock_map_of addValidation_map_of)

lemma node_run: "map_of t q \<noteq> None \<Longrightarrow> map_of (tree_run xs t) q \<noteq> None"
proof (induction xs arbitrary: t)
  case Nil
  then show ?case by simp
next
  case (Cons x xs)
  then show ?case by (cases "tree_step x t") (auto dest: node_step)
qed

lemma lock_sets_own_lock: "lock t p = Inr t' \<Longrightarrow> own_lock t' p"
  by (auto dest!: lock_map_of simp: own_lock_def)

lemma addChild_locked:
  "map_of t q \<noteq> None \<Longrightarrow> locked t q \<Longrightarrow> addChild t q i = Inl LockedTreeMutation"
  by (auto simp: addChild_def)

lemma addChild_unlocked:
  "map_of t q = Some n \<Longrightarrow> \<not> locked t q \<Longrightarrow> i \<notin> set (child_ids n) \<Longrightarrow>
     \<exists>t'. addChild t q i = Inr t'"
  by (simp add: addChild_def)

text \<open>
  C7. In a tree built from a lone root, once \<open>lock()\<close> has been called on a node, adding
  a child to that node or to any node beneath it fails with \<open>LockedTreeMutation\<close>,
  whatever calls were made in between; adding a child of an unused id to a node that is
  not locked succeeds; and \<open>locked\<close> answers true exactly when the node itself or one of
  its enclosing scopes carries the lock.
\<close>

theorem lock_invariant:
  "(lock (tree_of pre) p = Inr t1 \<and> prefix p q \<and> map_of t1 q \<noteq> None
      \<longrightarrow> addChild (tree_run later t1) q i = Inl LockedTreeMutation)
   \<and> (map_of (tree_of pre) q = Some n \<and> \<not> locked (tree_of pre) q \<and> i \<notin> set (child_ids n)
      \<longrightarrow> (\<exists>t'. addChild (tree_of pre) q i = Inr t'))
   \<and> (locked t q \<longleftrightarrow> (\<exists>r. prefix r q \<and> own_lock t r))"
proof (intro conjI impI)
  assume a: "lock (tree_of pre) p = Inr t1 \<and> prefix p q \<and> map_of t1 q \<noteq> None"
  then have wf1: "well_formed t1"
    using well_formed_lock [OF well_formed_tree_of] by blast
  from a have "own_lock t1 p" by (blast intro: lock_sets_own_lock)
  with wf1 have "own_lock (tree_run later t1) p" by (rule own_lock_run)
  with a have "locked (tree_run later t1) q" unfolding locked_iff by blast
  moreover from a have "map_of t1 q \<noteq> None" by simp
  then have "map_of (tree_run later t1) q \<noteq> None" by (rule node_run)
  ultimately show "addChild (tree_run later t1) q i = Inl LockedTreeMutation"
    by (simp add: addChild_locked)
next
  assume "map_of (tree_of pre) q = Some n \<and> \<not> locked (tree_of pre) q \<and> i \<notin> set (child_ids n)"
  then show "\<exists>t'. addChild (tree_of pre) q i = Inr t'"
    using addChild_unlocked by blast
next
  show "locked t q \<longleftrightarrow> (\<exists>r. prefix r q \<and> own_lock t r)" by (rule locked_iff)
qed

lemma ex_pre:
  "tree_of [AddChild [] ''A'', AddChild [''A''] ''B''] =
     [([], \<lparr>child_ids = [''A''], is_locked = False, validations = []\<rparr>),
      ([''A''], \<lparr>child_ids = [''B''], is_locked = False, validations = []\<rparr>),
      ([''A'', ''B''], \<lparr>child_ids = [], is_locked = False, validations = []\<rparr>)]"
  by (simp add: tree_of_def addChild_def locked.simps own_lock_def new_cnode_def)

theorem lock_invariant_witness:
  "(\<exists>t1. lock (tree_of [AddChild [] ''A'', AddChild [''A''] ''B'']) [''A''] = Inr t1
      \<and> prefix [''A''] [''A'', ''B'']
      \<and> map_of t1 [''A'', ''B''] \<noteq> None
      \<and> addChild (tree_run [AddValidation [] [''x''], AddChild [] ''C''] t1) [''A'', ''B''] ''D''
           = Inl LockedTreeMutation)
   \<and> \<not> locked (tree_of [AddChild [] ''A'', AddChild [''A''] ''B'']) [''A'', ''B'']
   \<and> (\<exists>t'. addChild (tree_of [AddChild [] ''A'', AddChild [''A''] ''B'']) [''A'', ''B''] ''D''
           = Inr t')"
proof -
  let ?t0 = "tree_of [AddChild [] ''A'', AddChild [''A''] ''B'']"
  let ?t1 = "[([], \<lparr>child_ids = [''A''], is_locked = False, validations = []\<rparr>),
      ([''A''], \<lparr>child_ids = [''B''], is_locked = True, validations = []\<rparr>),
      ([''A'', ''B''], \<lparr>child_ids = [], is_locked = False, validations = []\<rparr>)]"
  let ?n = "\<lparr>child_ids = [], is_locked = False, validations = []\<rparr>"
  have l: "lock ?t0 [''A''] = Inr ?t1"
    by (simp add: ex_pre lock_def)
  have m: "map_of ?t1 [''A'', ''B''] \<noteq> None" by simp
  have n: "map_of ?t0 [''A'', ''B''] = Some ?n" by (simp add: ex_pre)
  have u: "\<not> locked ?t0 [''A'', ''B'']"
    by (simp add: ex_pre locked.simps own_lock_def)
  note main = lock_invariant [of "[AddChild [] ''A'', AddChild [''A''] ''B'']" "[''A'']" ?t1
      "[''A'', ''B'']" "[AddValidation [] [''x''], AddChild [] ''C'']" "''D''" ?n]
  from main l m have a: "addChild (tree_run [AddValidation [] [''x''], AddChild [] ''C''] ?t1)
      [''A'', ''B''] ''D'' = Inl LockedTreeMutation"
    by simp
  from main n u have b: "\<exists>t'. addChild ?t0 [''A'', ''B''] ''D'' = Inr t'"
    by simp
  from l m a u b show ?thesis by simp
qed


section \<open>Properties of onTick\<close>

lemma addChild_has_child: "addChild t p i = Inr t' \<Longrightarrow> has_child t' p i"
  by (auto dest!: addChild_map_of simp: has_child_def)

lemma addChild_keeps_child:
  assumes "well_formed t" "addChild t q j = Inr t'" "has_child t p i"
  shows "has_child t' p i"
proof -
  from addChild_map_of [OF assms(2)] obtain n where
    n: "map_of t q = Some n" and fresh: "j \<notin> set (child_ids n)"
    and m: "map_of t' = (map_of t)(q \<mapsto> n\<lparr>child_ids := child_ids n @ [j]\<rparr>,
                                   q @ [j] \<mapsto> new_cnode)"
    by blast
  have "map_of t (q @ [j]) = None"
    using assms(1) n fresh unfolding well_formed_def by force
  with assms(3) have "p \<noteq> q @ [j]" by (auto simp: has_child_def)
  with assms(3) m n show ?thesis by (auto simp: has_child_def split: option.splits)
qed

lemma addChild_own_lock: "addChild t q j = Inr t' \<Longrightarrow> own_lock t' r \<Longrightarrow> own_lock t r"
  by (auto dest!: addChild_map_of simp: own_lock_def new_cnode_def split: if_splits option.splits)

lemma addChild_keeps_unlocked:
  "addChild t q j = Inr t' \<Longrightarrow> \<not> locked t p \<Longrightarrow> \<not> locked t' p"
  unfolding locked_iff by (blast dest: addChild_own_lock)

lemma addChild_was_unlocked: "addChild t q j = Inr t' \<Longrightarrow> \<not> locked t q"
  by (auto dest!: addChild_map_of)

lemma grown_well_formed: "grown t t' \<Longrightarrow> well_formed t \<Longrightarrow> well_formed t'"
  by (induction rule: grown.induct) (auto intro: well_formed_addChild)

lemma grown_keeps_child:
  "grown t t' \<Longrightarrow> well_formed t \<Longrightarrow> has_child t p i \<Longrightarrow> has_child t' p i"
proof (induction rule: grown.induct)
  case (grown_same t)
  then show ?case by simp
next
  case (grown_child t t1 q j t2)
  then have "well_formed t1" "has_child t1 p i" by (auto intro: grown_well_formed)
  with grown_child.hyps(2) show ?case by (blast intro: addChild_keeps_child)
qed

lemma grown_keeps_unlocked: "grown t t' \<Longrightarrow> \<not> locked t p \<Longrightarrow> \<not> locked t' p"
  by (induction rule: grown.induct) (auto dest: addChild_keeps_unlocked)

lemma grown_trans: "grown t1 t2 \<Longrightarrow> grown t t1 \<Longrightarrow> grown t t2"
  by (induction rule: grown.induct) (auto intro: grown.intros)

lemma grown_step: "addChild t p i = Inr t' \<Longrightarrow> grown t t'"
  by (blast intro: grown.intros)

lemma new_Function_grown:
  assumes "new_Function t scope fid props = Inr t'"
  shows "grown t t'"
proof -
  from assms obtain t1 t2 t3 t4 t5 where
    c1: "addChild t scope fid = Inr t1" and
    c2: "addChild t1 (scope @ [fid]) ''Asset'' = Inr t2" and
    c3: "addChild t2 (scope @ [fid]) ''Id'' = Inr t3" and
    c4: "addChild t3 (scope @ [fid]) ''Function_Bucket'' = Inr t4" and
    c5: "addChild t4 (scope @ [fid]) ''Function_Object_Bucket'' = Inr t5" and
    c6: "addChild t5 (scope @ [fid]) ''Default_Function'' = Inr t'"
    unfolding new_Function_def by (auto split: sum.splits)
  from c1 have "grown t t1" by (rule grown_step)
  then have "grown t t2" using c2 by (rule grown_child)
  then have "grown t t3" using c3 by (rule grown_child)
  then have "grown t t4" using c4 by (rule grown_child)
  then have "grown t t5" using c5 by (rule grown_child)
  then show ?thesis using c6 by (rule grown_child)
qed

lemma onTick_success:
  assumes "onTick makeId s h props = Inr (f, s1)"
  shows "\<exists>t1. addChild (nodes s) (self s) ''CloudSchedulerAPI'' = Inr t1
           \<and> grown t1 (nodes s1) \<and> self s1 = self s"
proof -
  from assms obtain t1 where t1: "addChild (nodes s) (self s) ''CloudSchedulerAPI'' = Inr t1"
    by (auto simp: onTick_def split: sum.splits)
  show ?thesis
  proof (cases "map_of (handlers s) h")
    case (Some g)
    with assms t1 have "nodes s1 = t1" "self s1 = self s"
      by (auto simp: onTick_def)
    with t1 show ?thesis by (auto intro: grown_same)
  next
    case None
    with assms t1 obtain t2 t3 where
      f: "new_Function t1 (self s) (makeId (made_ids s)) props = Inr t2" and
      a: "addChild t2 (self s) ''SchedulerServiceAccount'' = Inr t3" and
      b: "addChild t3 (self s) ''Scheduler'' = Inr (nodes s1)" and
      e: "self s1 = self s"
      by (auto simp: onTick_def Let_def split: sum.splits)
    from f have "grown t1 t2" by (rule new_Function_grown)
    then have "grown t1 t3" using a by (rule grown_child)
    then have "grown t1 (nodes s1)" using b by (rule grown_child)
    with t1 e show ?thesis by blast
  qed
qed

text \<open>
  C4. The table \<open>handlers\<close> is read only after the \<open>ProjectService\<close> with the fixed id
  \<open>CloudSchedulerAPI\<close> has been created under the schedule. So whenever a call of
  \<open>onTick\<close> has returned, the next call on the same schedule, with the same handler
  and any options, throws for the duplicate id and returns no function: the function
  created by the first call is not handed out again.
\<close>

theorem onTick_second_call_throws:
  assumes "well_formed (nodes s)" "onTick makeId s h props = Inr (f, s1)"
  shows "onTick makeId s1 h props' = Inl (DuplicateChildId ''CloudSchedulerAPI'')"
proof -
  from onTick_success [OF assms(2)] obtain t1 where
    t1: "addChild (nodes s) (self s) ''CloudSchedulerAPI'' = Inr t1"
    and g: "grown t1 (nodes s1)" and self: "self s1 = self s"
    by blast
  from assms(1) t1 have wf1: "well_formed t1" by (rule well_formed_addChild)
  from t1 have "has_child t1 (self s) ''CloudSchedulerAPI''" by (rule addChild_has_child)
  with g wf1 have c: "has_child (nodes s1) (self s) ''CloudSchedulerAPI''"
    by (rule grown_keeps_child)
  from t1 have "\<not> locked (nodes s) (self s)" by (rule addChild_was_unlocked)
  with t1 have "\<not> locked t1 (self s)" by (rule addChild_keeps_unlocked)
  with g have u: "\<not> locked (nodes s1) (self s)" by (rule grown_keeps_unlocked)
  from c u have "addChild (nodes s1) (self s) ''CloudSchedulerAPI''
                  = Inl (DuplicateChildId ''CloudSchedulerAPI'')"
    by (auto simp: addChild_def has_child_def split: option.splits)
  with self show ?thesis by (simp add: onTick_def)
qed

lemma fresh_schedule_first_call:
  "\<exists>s1. onTick OnTick_id fresh_schedule ''handler-1'' \<lparr>memory = None, timeout = None, env = None\<rparr>
          = Inr ([''Schedule'', ''OnTick0''], s1)"
  by (simp add: onTick_def fresh_schedule_def OnTick_id_def tree_of_def addChild_def
        new_Function_def Function_constructor_def locked.simps own_lock_def new_cnode_def Let_def)

theorem onTick_second_call_throws_witness:
  "well_formed (nodes fresh_schedule)
   \<and> (\<exists>s1. onTick OnTick_id fresh_schedule ''handler-1''
              \<lparr>memory = None, timeout = None, env = None\<rparr>
            = Inr ([''Schedule'', ''OnTick0''], s1)
          \<and> onTick OnTick_id s1 ''handler-1'' \<lparr>memory = None, timeout = None, env = None\<rparr>
            = Inl (DuplicateChildId ''CloudSchedulerAPI''))"
proof -
  have wf: "well_formed (nodes fresh_schedule)"
    by (simp add: fresh_schedule_def well_formed_tree_of)
  from fresh_schedule_first_call obtain s1 where
    first: "onTick OnTick_id fresh_schedule ''handler-1''
              \<lparr>memory = None, timeout = None, env = None\<rparr>
            = Inr ([''Schedule'', ''OnTick0''], s1)"
    by blast
  from onTick_second_call_throws [OF wf first] wf first show ?thesis by blast
qed

end
